theory Spec2Isabelle
  imports Main "HOL-Library.Word"
begin

unbundle bit_operations_syntax

section \<open>Platform types and constants\<close>

text \<open>
  \<^verbatim>\<open>bit_math.h\<close> takes its integer types and size constants from \<^verbatim>\<open>platform.h\<close>,
  which is not among the sources. They are fixed here as the specification describes
  them: \<^verbatim>\<open>uqword\<close> is the unsigned 64-bit native word, \<^verbatim>\<open>qword\<close> is the same bit
  pattern read as two's complement (\<open>sint\<close>), \<^verbatim>\<open>udqword\<close> is the double-width word.
\<close>

type_synonym uqword = "64 word"
type_synonym qword = "64 word"
type_synonym udqword = "128 word"

text \<open>Modelled from the spec: \<^verbatim>\<open>MIN_BITS\<close> (platform.h), the bits of one \<^verbatim>\<open>sizeof\<close> unit.\<close>

definition MIN_BITS :: nat where
  "MIN_BITS = 8"

text \<open>Modelled from the spec: \<^verbatim>\<open>sizeof(uqword)\<close> for the 64-bit native word.\<close>

definition sizeof_uqword :: nat where
  "sizeof_uqword = 8"

text \<open>
  Modelled from the spec: \<^verbatim>\<open>sizeof(uintmin_t)\<close> (platform.h), the smallest
  addressable unit, so that a bit array word has \<open>8 * 1 * 8 = 64\<close> bits.
\<close>

definition sizeof_uintmin_t :: nat where
  "sizeof_uintmin_t = 1"

text \<open>\<^verbatim>\<open>#define bitwidth(Type) (sizeof(Type) * MIN_BITS)\<close>, at \<^verbatim>\<open>uqword\<close>.\<close>

definition bitwidth_uqword :: nat where
  "bitwidth_uqword = sizeof_uqword * MIN_BITS"

section \<open>Errors\<close>

text \<open>
  Modelled from the spec: \<^verbatim>\<open>fatalf\<close> (state.h, not among the sources) prints the
  diagnostic and terminates the process, so nothing after it runs.
  \<open>Fatal f index words\<close> is the call \<^verbatim>\<open>fatalf(__func__, "index out of range: ...", index, words)\<close>.
  \<open>Undefined_shift\<close> is a shift whose count is negative or not below the width of the
  shifted operand, for which C defines no result.
  \<open>Out_of_bounds\<close> is a read or write past the end of the array object.
  \<open>Diverges\<close> is a loop that never exits.
\<close>

datatype error =
    Fatal string uqword uqword
  | Undefined_shift
  | Out_of_bounds
  | Diverges

fun is_fatal :: "error + 'a \<Rightarrow> bool" where
  "is_fatal (Inl (Fatal f i w)) = True"
| "is_fatal r = False"

section \<open>Significant bits\<close>

text \<open>
  \<^verbatim>\<open>__builtin_clzll\<close> is the compiler's count of leading zero bits of a 64-bit operand,
  scanning down from bit 63. The compiler leaves the result for 0 undefined; \<^verbatim>\<open>sigbits\<close>
  only calls it on \<^verbatim>\<open>bit_string | 1\<close>, which is never 0.
\<close>

fun leading_zeros :: "nat \<Rightarrow> uqword \<Rightarrow> nat" where
  "leading_zeros 0 w = 0"
| "leading_zeros (Suc n) w = (if bit w n then 0 else Suc (leading_zeros n w))"

definition builtin_clzll :: "uqword \<Rightarrow> nat" where
  "builtin_clzll w = leading_zeros 64 w"

text \<open>
  \<^verbatim>\<open>sigbits\<close>, the branch for a GNU C compiler on a 64-bit data model (the header uses
  \<^verbatim>\<open>typeof\<close> and \<^verbatim>\<open>__attribute__\<close> throughout, so \<^verbatim>\<open>__GNUC__\<close> is defined wherever
  it compiles): \<^verbatim>\<open>return bitwidth(typeof(bit_string)) - __builtin_clzll((bit_string | 1ull));\<close>
\<close>

definition sigbits :: "uqword \<Rightarrow> uqword" where
  "sigbits bit_string = of_nat bitwidth_uqword - of_nat (builtin_clzll (bit_string OR 1))"

text \<open>
  The last \<^verbatim>\<open>#else\<close> body of \<^verbatim>\<open>sigbits\<close>, for a compiler that is not GNU C on a
  platform without a count instruction. It is kept apart as \<open>sigbits_portable\<close>: the header
  relies on GNU extensions throughout, so this body is not the one in use.
  \<open>k\<close> is a \<^verbatim>\<open>ubyte\<close>; it stays below 64.
\<close>

definition sigbits_portable :: "uqword \<Rightarrow> uqword" where
  "sigbits_portable bit_string0 =
     (let (bit_string, k) = (bit_string0, 0 :: 8 word);
          (bit_string, k) = (if bit_string > 0xFFFFFFFF then (drop_bit 32 bit_string, 32) else (bit_string, k));
          (bit_string, k) = (if bit_string > 0x0000FFFF then (drop_bit 16 bit_string, k OR 16) else (bit_string, k));
          (bit_string, k) = (if bit_string > 0x000000FF then (drop_bit 8 bit_string, k OR 8) else (bit_string, k));
          (bit_string, k) = (if bit_string > 0x0000000F then (drop_bit 4 bit_string, k OR 4) else (bit_string, k));
          (bit_string, k) = (if bit_string > 0x00000003 then (drop_bit 2 bit_string, k OR 2) else (bit_string, k));
          k = k OR ucast (drop_bit 1 (bit_string AND 2))
      in ucast k)"

text \<open>\<^verbatim>\<open>return sigbits(bit_string) - 1ull;\<close>\<close>

definition log2i :: "uqword \<Rightarrow> uqword" where
  "log2i bit_string = sigbits bit_string - 1"

section \<open>Bounds predicates\<close>

definition in_range :: "uqword \<Rightarrow> uqword \<Rightarrow> uqword \<Rightarrow> bool" where
  "in_range mn mx v = (mn \<le> v \<and> v \<le> mx)"

definition in_buffer :: "uqword \<Rightarrow> uqword \<Rightarrow> uqword \<Rightarrow> bool" where
  "in_buffer mn mx v = (mn \<le> v \<and> v < mx)"

section \<open>Bit arrays\<close>

text \<open>
  A bit array is the sequence of words behind the \<^verbatim>\<open>bitarray\<close> pointer; \<^verbatim>\<open>words\<close> is
  passed separately, as in the source. The source indexes the pointer after the guard
  without a further check, so an index the guard admits but the array does not hold is
  \<open>Out_of_bounds\<close>.
  \<^verbatim>\<open>uqword bits = sizeof(uqword) * sizeof(uintmin_t) * MIN_BITS;\<close>
\<close>

definition bits_per_word :: uqword where
  "bits_per_word = of_nat (sizeof_uqword * sizeof_uintmin_t * MIN_BITS)"

text \<open>
  The shift counts below are \<^verbatim>\<open>bit_index % bits\<close> with \<open>bits = 64\<close>, always below the
  width, so the shifts are defined and are \<open>drop_bit\<close> and \<open>push_bit\<close>.
\<close>

definition get_bita :: "uqword list \<Rightarrow> uqword \<Rightarrow> uqword \<Rightarrow> error + uqword" where
  "get_bita bitarray words bit_index =
     (let bits = bits_per_word;
          index = bit_index div bits
      in if \<not> in_buffer 0 words index then Inl (Fatal ''get_bita'' index words)
         else if \<not> unat index < length bitarray then Inl Out_of_bounds
         else let word = bitarray ! unat index;
                  b = drop_bit (unat (bit_index mod bits)) word AND 1
              in Inr b)"

definition set_bita :: "uqword list \<Rightarrow> uqword \<Rightarrow> uqword \<Rightarrow> uqword \<Rightarrow> error + uqword list" where
  "set_bita bitarray words bit_offset v =
     (let bits = bits_per_word;
          index = bit_offset div bits
      in if \<not> in_buffer 0 words index then Inl (Fatal ''set_bita'' index words)
         else if \<not> unat index < length bitarray then Inl Out_of_bounds
         else let word = bitarray ! unat index;
                  word' = word XOR
                    ((word XOR push_bit (unat (bit_offset mod bits)) (v AND 1))
                      AND push_bit (unat (bit_offset mod bits)) 1)
              in Inr (bitarray[unat index := word']))"

section \<open>Binary tree index\<close>

text \<open>
  In \<^verbatim>\<open>bin_index\<close> the shift counts are \<^verbatim>\<open>address_bits = log2i(address)\<close> of a value
  below \<open>2 ^ 63\<close>, at most 62, so both shifts are defined.
\<close>

definition bin_index :: "uqword \<Rightarrow> uqword" where
  "bin_index address0 =
     (let side = address0 AND 1;
          address = drop_bit 1 address0
      in if address = 0 then side
         else let address_bits = log2i address
              in if address = 1 then side
                 else push_bit (unat address_bits) 2 - 2 + address
                        - side * push_bit (unat address_bits) 1)"

text \<open>
  The depth of an address is that of its path, the address without its side bit: the
  \<^verbatim>\<open>address_bits = log2i(address)\<close> of \<^verbatim>\<open>bin_index\<close>, the position of the path's
  highest set bit. \<^verbatim>\<open>log2i(0)\<close> is 0, so the paths 0 and 1 both have depth 0.
\<close>

definition path_depth :: "uqword \<Rightarrow> nat" where
  "path_depth address = unat (log2i (drop_bit 1 address))"

section \<open>Leading and trailing zero counts\<close>

text \<open>
  \<^verbatim>\<open>cntlz\<close> and \<^verbatim>\<open>cnttz\<close> select their body by the \<^verbatim>\<open>ARCH\<close> macro of platform.h,
  which is taken as a parameter.
\<close>

datatype arch = ARCH_X86_32 | ARCH_X86_64 | ARCH_OTHER

fun trailing_zeros :: "nat \<Rightarrow> nat \<Rightarrow> uqword \<Rightarrow> nat" where
  "trailing_zeros 0 i w = 0"
| "trailing_zeros (Suc n) i w = (if bit w i then 0 else Suc (trailing_zeros n (Suc i) w))"

text \<open>
  The wrappers \<^verbatim>\<open>__x86_lzcnt\<close>, \<^verbatim>\<open>__x64_lzcnt\<close>, \<^verbatim>\<open>__x86_tzcnt\<close> and \<^verbatim>\<open>__x64_tzcnt\<close>
  belong to asm.h, which is not among the sources. The specification describes them as
  the native count instructions, which count the zero bits above the highest, or below
  the lowest, set bit and return the operand's bit width for a zero operand.
\<close>

text \<open>Modelled from the spec: \<^verbatim>\<open>__x86_lzcnt\<close> (asm.h), the native leading zero count.\<close>

definition x86_lzcnt :: "uqword \<Rightarrow> uqword" where
  "x86_lzcnt w = of_nat (leading_zeros bitwidth_uqword w)"

text \<open>Modelled from the spec: \<^verbatim>\<open>__x64_lzcnt\<close> (asm.h), the native leading zero count.\<close>

definition x64_lzcnt :: "uqword \<Rightarrow> uqword" where
  "x64_lzcnt w = of_nat (leading_zeros bitwidth_uqword w)"

text \<open>Modelled from the spec: \<^verbatim>\<open>__x86_tzcnt\<close> (asm.h), the native trailing zero count.\<close>

definition x86_tzcnt :: "uqword \<Rightarrow> uqword" where
  "x86_tzcnt w = of_nat (trailing_zeros bitwidth_uqword 0 w)"

text \<open>Modelled from the spec: \<^verbatim>\<open>__x64_tzcnt\<close> (asm.h), the native trailing zero count.\<close>

definition x64_tzcnt :: "uqword \<Rightarrow> uqword" where
  "x64_tzcnt w = of_nat (trailing_zeros bitwidth_uqword 0 w)"

text \<open>
  The portable bodies. The loop of \<^verbatim>\<open>cntlz\<close> is
  \<^verbatim>\<open>for (uqword i = bitwidth(bit_string) - 1u; i < bitwidth(bit_string) && (loop_condition = (bit_string >> i) & 1u); i++) zeroes += loop_condition;\<close>
  on the complemented operand, and that of \<^verbatim>\<open>cnttz\<close> is the same loop from \<^verbatim>\<open>i = 0\<close>.
  The counter \<open>i\<close> stays at most 64 and \<open>zeroes\<close> (a \<^verbatim>\<open>ubyte\<close>) at most 64, so neither
  wraps and both are natural numbers here; \<^verbatim>\<open>&&\<close> does not evaluate the shift once
  \<open>i\<close> has reached the width.
\<close>

function cntlz_loop :: "uqword \<Rightarrow> nat \<Rightarrow> nat \<Rightarrow> nat" where
  "cntlz_loop bit_string i zeroes =
     (if i < bitwidth_uqword \<and> drop_bit i bit_string AND 1 \<noteq> 0
      then cntlz_loop bit_string (i + 1) (zeroes + unat (drop_bit i bit_string AND 1))
      else zeroes)"
  by pat_completeness auto
termination
  by (relation "measure (\<lambda>(bit_string, i, zeroes). bitwidth_uqword - i)") auto

function cnttz_loop :: "uqword \<Rightarrow> nat \<Rightarrow> nat \<Rightarrow> nat" where
  "cnttz_loop bit_string i zeroes =
     (if i < bitwidth_uqword \<and> drop_bit i bit_string AND 1 \<noteq> 0
      then cnttz_loop bit_string (i + 1) (zeroes + unat (drop_bit i bit_string AND 1))
      else zeroes)"
  by pat_completeness auto
termination
  by (relation "measure (\<lambda>(bit_string, i, zeroes). bitwidth_uqword - i)") auto

definition cntlz :: "arch \<Rightarrow> uqword \<Rightarrow> uqword" where
  "cntlz ar bit_string =
     (case ar of
        ARCH_X86_32 \<Rightarrow> x86_lzcnt bit_string
      | ARCH_X86_64 \<Rightarrow> x64_lzcnt bit_string
      | ARCH_OTHER \<Rightarrow> of_nat (cntlz_loop (NOT bit_string) (bitwidth_uqword - 1) 0))"

definition cnttz :: "arch \<Rightarrow> uqword \<Rightarrow> uqword" where
  "cnttz ar bit_string =
     (case ar of
        ARCH_X86_32 \<Rightarrow> x86_tzcnt bit_string
      | ARCH_X86_64 \<Rightarrow> x64_tzcnt bit_string
      | ARCH_OTHER \<Rightarrow> of_nat (cnttz_loop (NOT bit_string) 0 0))"

section \<open>Divide-free modulus\<close>

text \<open>
  A C shift is defined only for a count from 0 up to the width of the shifted operand,
  exclusive. The count is given as an integer, read from the count's own type.
\<close>

definition shl :: "uqword \<Rightarrow> int \<Rightarrow> error + uqword" where
  "shl x n = (if 0 \<le> n \<and> n < 64 then Inr (push_bit (nat n) x) else Inl Undefined_shift)"

definition shr :: "uqword \<Rightarrow> int \<Rightarrow> error + uqword" where
  "shr x n = (if 0 \<le> n \<and> n < 64 then Inr (drop_bit (nat n) x) else Inl Undefined_shift)"

text \<open>
  \<^verbatim>\<open>#define shift(value, a) ( (!a ? value : (a < 0 ? value >> a : value << a)) )\<close>
  does not parenthesise its parameter. \<^verbatim>\<open>umodq\<close> passes
  \<^verbatim>\<open>(qword) sigbits(a) - (qword) sigbits(b)\<close> for it, so the test \<^verbatim>\<open>!a\<close> is the text
  \<^verbatim>\<open>!(qword) sigbits(a) - (qword) sigbits(b)\<close>, which C reads as
  \<^verbatim>\<open>(!(qword) sigbits(a)) - (qword) sigbits(b)\<close>. In the other three places the
  difference binds tighter than \<^verbatim>\<open><\<close>, \<^verbatim>\<open>>>\<close> and \<^verbatim>\<open><<\<close> and is read as written.
\<close>

definition shift_by_sigbits :: "uqword \<Rightarrow> uqword \<Rightarrow> error + uqword" where
  "shift_by_sigbits a b =
     (let test = (if sigbits a = 0 then 1 else 0) - sigbits b :: qword;
          d = sigbits a - sigbits b :: qword
      in if test \<noteq> 0 then Inr a
         else if sint d < 0 then shr a (sint d) else shl a (sint d))"

text \<open>\<^verbatim>\<open>while (a >= b) { a -= b; }\<close>\<close>

partial_function (option) umodq_loop :: "uqword \<Rightarrow> uqword \<Rightarrow> uqword option" where
  "umodq_loop a b = (if a \<ge> b then umodq_loop (a - b) b else Some a)"

declare umodq_loop.simps [code]

text \<open>
  \<^verbatim>\<open>umodq\<close>. The source computes \<^verbatim>\<open>1ull << (log2i(b) + 1)\<close> twice, in 64 bits and
  before the cast to \<^verbatim>\<open>udqword\<close>; it is bound once here as \<open>p\<close>.
\<close>

definition umodq :: "uqword \<Rightarrow> uqword \<Rightarrow> error + uqword" where
  "umodq a b =
     (if b = 0 then Inr 0
      else case shift_by_sigbits a b of Inl e \<Rightarrow> Inl e | Inr a1 \<Rightarrow>
        (case shr a1 (uint (log2i b + 1)) of Inl e \<Rightarrow> Inl e | Inr a2 \<Rightarrow>
          (case shl 1 (uint (log2i b + 1)) of Inl e \<Rightarrow> Inl e | Inr p \<Rightarrow>
            (let b2 = (ucast ((ucast p :: udqword) - (ucast b :: udqword)) :: uqword);
                 a3 = (ucast ((ucast a1 :: udqword) AND (ucast (p - 1) :: udqword)) :: uqword);
                 a4 = a3 + b2 * a2
             in case umodq_loop a4 b of None \<Rightarrow> Inl Diverges | Some r \<Rightarrow> Inr r))))"

section \<open>Partition store\<close>

text \<open>
  \<^verbatim>\<open>memory.h\<close> declares \<^verbatim>\<open>m_reserve\<close>, \<^verbatim>\<open>m_resize\<close> and \<^verbatim>\<open>m_relinquish\<close> and defines none
  of them, and no source file holds their bodies. The store below is written from the
  specification's data model and its description of the partition store. Sizes and
  offsets are counted in bits and are natural numbers, the address space being unbounded;
  the backing vector holds one element per bit.
\<close>

text \<open>Modelled from the spec: the partition key \<open>(context, identifier)\<close>, both caller-supplied.\<close>

type_synonym partition_key = "uqword \<times> uqword"

text \<open>
  Modelled from the spec: the partition \<open>{key, offset, length, live}\<close> that \<^verbatim>\<open>m_object\<close>
  (m_object.h, not among the sources) stands for, with offset and length in bits.
\<close>

record partition =
  key :: partition_key
  offset :: nat
  len :: nat
  live :: bool

text \<open>
  Modelled from the spec: the partition store, with its one growable backing vector, the
  table from keys to partitions and the free list of reclaimed \<open>(offset, length)\<close>
  regions. \<open>limit\<close> is the size beyond which the backing vector cannot grow.
\<close>

record partition_store =
  backing :: "bool list"
  table :: "partition_key \<rightharpoonup> partition"
  free_list :: "(nat \<times> nat) list"
  limit :: nat

text \<open>
  Modelled from the spec: the two failure tiers of the store, the recoverable allocation
  failure and the fatal contract violation (a key that names no live partition).
\<close>

datatype store_error = Allocation_failure | Contract_violation

text \<open>
  Modelled from the spec: the choice among the free regions, the smallest one that is
  large enough for the request.
\<close>

fun smallest_fit :: "nat \<Rightarrow> (nat \<times> nat) list \<Rightarrow> (nat \<times> nat) option" where
  "smallest_fit bits [] = None"
| "smallest_fit bits (r # rs) =
     (case smallest_fit bits rs of
        None \<Rightarrow> if bits \<le> snd r then Some r else None
      | Some r' \<Rightarrow> if bits \<le> snd r \<and> snd r \<le> snd r' then Some r else Some r')"

text \<open>
  Modelled from the spec: a request is served from the free list first, and otherwise by
  a new region appended at the high-water mark, growing the backing vector; when no free
  region is large enough and the vector cannot grow, the result is the allocation
  failure. The region handed out is at least as long as requested.
\<close>

definition reserve_region :: "partition_store \<Rightarrow> nat \<Rightarrow> store_error + ((nat \<times> nat) \<times> partition_store)" where
  "reserve_region s bits =
     (case smallest_fit bits (free_list s) of
        Some r \<Rightarrow> Inr (r, s\<lparr>free_list := remove1 r (free_list s)\<rparr>)
      | None \<Rightarrow>
          if length (backing s) + bits \<le> limit s
          then Inr ((length (backing s), bits), s\<lparr>backing := backing s @ replicate bits False\<rparr>)
          else Inl Allocation_failure)"

text \<open>
  Modelled from the spec: \<^verbatim>\<open>m_reserve\<close> allocates a region of at least \<open>bits\<close>, assigns it
  to the caller's key and returns the partition.
\<close>

definition m_reserve :: "partition_store \<Rightarrow> uqword \<Rightarrow> uqword \<Rightarrow> nat \<Rightarrow> store_error + (partition \<times> partition_store)" where
  "m_reserve s ctx identifier bits =
     (case reserve_region s bits of
        Inl e \<Rightarrow> Inl e
      | Inr (r, s1) \<Rightarrow>
          let p = \<lparr>key = (ctx, identifier), offset = fst r, len = snd r, live = True\<rparr>
          in Inr (p, s1\<lparr>table := (table s1)((ctx, identifier) \<mapsto> p)\<rparr>))"

text \<open>Modelled from the spec: reading \<open>n\<close> bits of the backing vector from offset \<open>off\<close>.\<close>

definition read_bits :: "bool list \<Rightarrow> nat \<Rightarrow> nat \<Rightarrow> bool list" where
  "read_bits v off n = take n (drop off v)"

text \<open>Modelled from the spec: writing the bits \<open>bs\<close> into the backing vector at offset \<open>off\<close>.\<close>

definition write_bits :: "bool list \<Rightarrow> nat \<Rightarrow> bool list \<Rightarrow> bool list" where
  "write_bits v off bs = take off v @ bs @ drop (off + length bs) v"

text \<open>Modelled from the spec: the stored content of a partition, the bits of its region.\<close>

definition contents :: "partition_store \<Rightarrow> partition \<Rightarrow> bool list" where
  "contents s p = read_bits (backing s) (offset p) (len p)"

text \<open>
  Modelled from the spec: the trailing space of a partition that ends at \<open>e\<close> is free when
  a free region starts at \<open>e\<close> and covers the \<open>need\<close> missing bits.
\<close>

definition trailing_free :: "nat \<Rightarrow> nat \<Rightarrow> (nat \<times> nat) list \<Rightarrow> (nat \<times> nat) option" where
  "trailing_free e need fl = find (\<lambda>r. fst r = e \<and> need \<le> snd r) fl"

text \<open>
  Modelled from the spec: \<^verbatim>\<open>m_resize\<close>. A key that names no live partition is a contract
  violation. Shrinking truncates the partition in place. Growing is in place when the
  trailing space is free; otherwise the partition is relocated: a new region is reserved,
  the content is written into it, and then the table entry is swapped.
\<close>

definition m_resize :: "partition_store \<Rightarrow> uqword \<Rightarrow> uqword \<Rightarrow> nat \<Rightarrow> store_error + (partition \<times> partition_store)" where
  "m_resize s ctx identifier bits =
     (case table s (ctx, identifier) of
        None \<Rightarrow> Inl Contract_violation
      | Some p \<Rightarrow>
          if \<not> live p then Inl Contract_violation
          else if bits \<le> len p then
            (let p' = p\<lparr>len := bits\<rparr>
             in Inr (p', s\<lparr>table := (table s)((ctx, identifier) \<mapsto> p')\<rparr>))
          else
            (case trailing_free (offset p + len p) (bits - len p) (free_list s) of
               Some r \<Rightarrow>
                 (let p' = p\<lparr>len := len p + snd r\<rparr>
                  in Inr (p', s\<lparr>table := (table s)((ctx, identifier) \<mapsto> p'),
                                 free_list := remove1 r (free_list s)\<rparr>))
             | None \<Rightarrow>
                 (case reserve_region s bits of
                    Inl e \<Rightarrow> Inl e
                  | Inr (r, s1) \<Rightarrow>
                      (let copied = write_bits (backing s1) (fst r) (contents s p);
                           p' = p\<lparr>offset := fst r, len := snd r\<rparr>
                       in Inr (p', s1\<lparr>backing := copied,
                                       table := (table s1)((ctx, identifier) \<mapsto> p')\<rparr>)))))"

text \<open>Every region of a free list lies inside a backing vector of \<open>n\<close> bits.\<close>

definition regions_within :: "(nat \<times> nat) list \<Rightarrow> nat \<Rightarrow> bool" where
  "regions_within fl n = list_all (\<lambda>r. fst r + snd r \<le> n) fl"

section \<open>Facts about the platform constants\<close>

lemma bits_per_word_eq: "bits_per_word = 64"
  by (simp add: bits_per_word_def sizeof_uqword_def sizeof_uintmin_t_def MIN_BITS_def)

lemma bitwidth_uqword_eq: "bitwidth_uqword = 64"
  by (simp add: bitwidth_uqword_def sizeof_uqword_def MIN_BITS_def)

section \<open>Properties of the bit array accessors\<close>

lemma unat_div_64: "unat ((i::uqword) div 64) = unat i div 64"
  by (simp add: unat_div)

lemma unat_mod_64: "unat ((i::uqword) mod 64) = unat i mod 64"
  by (simp add: unat_mod)

lemma in_buffer_index_iff:
  "in_buffer 0 words (i div bits_per_word) \<longleftrightarrow> unat i < unat words * 64"
proof -
  have "in_buffer 0 words (i div bits_per_word) \<longleftrightarrow> unat i div 64 < unat words"
    by (simp add: in_buffer_def bits_per_word_eq word_less_nat_alt unat_div_64)
  also have "\<dots> \<longleftrightarrow> unat i < unat words * 64"
    by (simp add: div_less_iff_less_mult)
  finally show ?thesis .
qed

lemmas bitsimps = bit_xor_iff bit_and_iff bit_push_bit_iff bit_exp_iff bit_0 bit_1_iff

lemma drop_bit_and_one:
  fixes w :: uqword
  shows "drop_bit k w AND 1 = (if bit w k then 1 else 0)"
  by (simp add: and_one_eq bit_iff_odd_drop_bit mod_2_eq_odd)

text \<open>Both accessors, with the guard read on the bit index itself.\<close>

lemma get_bita_eq:
  "get_bita arr words i =
     (if \<not> unat i < unat words * 64 then Inl (Fatal ''get_bita'' (i div 64) words)
      else if \<not> unat i div 64 < length arr then Inl Out_of_bounds
      else Inr (if bit (arr ! (unat i div 64)) (unat i mod 64) then 1 else 0))"
  using in_buffer_index_iff [of words i]
  by (simp add: get_bita_def Let_def drop_bit_and_one bits_per_word_eq unat_div_64 unat_mod_64)

lemma set_bita_eq:
  "set_bita arr words i v =
     (if \<not> unat i < unat words * 64 then Inl (Fatal ''set_bita'' (i div 64) words)
      else if \<not> unat i div 64 < length arr then Inl Out_of_bounds
      else Inr (arr[unat i div 64 :=
             arr ! (unat i div 64) XOR
               ((arr ! (unat i div 64) XOR push_bit (unat i mod 64) (v AND 1))
                 AND push_bit (unat i mod 64) 1)]))"
  using in_buffer_index_iff [of words i]
  by (simp add: set_bita_def Let_def bits_per_word_eq unat_div_64 unat_mod_64)

text \<open>
  Claim C8. On a bit array that holds \<open>words\<close> words, for a bit value \<open>v\<close> that is 0 or 1
  and a bit index \<open>i\<close> below \<open>words * 64\<close>, \<^verbatim>\<open>set_bita(arr, words, i, v)\<close> completes and
  a following \<^verbatim>\<open>get_bita(arr, words, i)\<close> returns \<open>v\<close>.
\<close>

theorem set_bita_then_get_bita:
  assumes "length arr = unat words" and "v = 0 \<or> v = 1" and "unat i < unat words * 64"
  shows "\<exists>arr'. set_bita arr words i v = Inr arr' \<and> get_bita arr' words i = Inr v"
proof -
  have idx: "unat i div 64 < length arr"
    using assms(1,3) by (simp add: div_less_iff_less_mult)
  show ?thesis
    using assms(2,3) idx
    by (auto simp add: set_bita_eq get_bita_eq bitsimps)
qed

theorem set_bita_then_get_bita_witness:
  "length [5, 6 :: uqword] = unat (2 :: uqword) \<and> ((0 :: uqword) = 0 \<or> (0 :: uqword) = 1)
   \<and> unat (66 :: uqword) < unat (2 :: uqword) * 64
   \<and> (\<exists>arr'. set_bita [5, 6] 2 66 0 = Inr arr' \<and> get_bita arr' 2 66 = Inr 0)"
  using set_bita_then_get_bita [of "[5, 6]" 2 0 66] by simp

text \<open>
  Claim C9. \<^verbatim>\<open>get_bita\<close> and \<^verbatim>\<open>set_bita\<close> end in the fatal diagnostic exactly when the
  bit index is at least \<open>words * 64\<close>; on an array that holds \<open>words\<close> words every bit
  index below \<open>words * 64\<close> completes normally.
\<close>

theorem bita_fatal_iff_out_of_range:
  "(is_fatal (get_bita arr words i) \<longleftrightarrow> unat words * 64 \<le> unat i)
   \<and> (is_fatal (set_bita arr words i v) \<longleftrightarrow> unat words * 64 \<le> unat i)
   \<and> (length arr = unat words \<longrightarrow> unat i < unat words * 64 \<longrightarrow>
        (\<exists>b. get_bita arr words i = Inr b) \<and> (\<exists>arr'. set_bita arr words i v = Inr arr'))"
  by (auto simp add: set_bita_eq get_bita_eq div_less_iff_less_mult)

theorem bita_fatal_iff_out_of_range_witness:
  "length [5, 6 :: uqword] = unat (2 :: uqword) \<and> unat (66 :: uqword) < unat (2 :: uqword) * 64
   \<and> (\<exists>b. get_bita [5, 6] 2 66 = Inr b) \<and> (\<exists>arr'. set_bita [5, 6] 2 66 1 = Inr arr')
   \<and> unat (2 :: uqword) * 64 \<le> unat (128 :: uqword)
   \<and> is_fatal (get_bita [5, 6] 2 128) \<and> is_fatal (set_bita [5, 6] 2 128 1)"
  using bita_fatal_iff_out_of_range [of "[5, 6]" 2 66 1]
    bita_fatal_iff_out_of_range [of "[5, 6]" 2 128 1]
  by simp

text \<open>
  Claim C10. A \<^verbatim>\<open>set_bita\<close> that completes changes at most the addressed bit: the array
  keeps its length, every word other than word \<open>i div 64\<close> is unchanged, and in that word
  every bit other than bit \<open>i mod 64\<close> keeps its value.
\<close>

theorem set_bita_frame:
  assumes "set_bita arr words i v = Inr arr'"
  shows "length arr' = length arr
    \<and> (\<forall>j. j \<noteq> unat i div 64 \<longrightarrow> arr' ! j = arr ! j)
    \<and> (\<forall>k. k \<noteq> unat i mod 64 \<longrightarrow>
          bit (arr' ! (unat i div 64)) k = bit (arr ! (unat i div 64)) k)"
  using assms
  by (auto simp add: set_bita_eq bitsimps split: if_splits)

theorem set_bita_frame_witness:
  "set_bita [5, 6] 2 66 0 = Inr [5, 2]
   \<and> length [5, 2 :: uqword] = length [5, 6 :: uqword]
   \<and> (0 :: nat) \<noteq> unat (66 :: uqword) div 64 \<and> [5, 2 :: uqword] ! 0 = [5, 6] ! 0
   \<and> (0 :: nat) \<noteq> unat (66 :: uqword) mod 64
   \<and> bit ([5, 2 :: uqword] ! (unat (66 :: uqword) div 64)) (0 :: nat)
         = bit ([5, 6 :: uqword] ! (unat (66 :: uqword) div 64)) (0 :: nat)"
proof -
  have h: "set_bita [5, 6] 2 66 0 = Inr [5, 2]"
    by code_simp
  from h set_bita_frame [OF h] show ?thesis
    by simp
qed

section \<open>Properties of the significant bit count\<close>

lemma leading_zeros_top:
  "m < n \<Longrightarrow> bit w m \<Longrightarrow> (\<forall>i. m < i \<and> i < n \<longrightarrow> \<not> bit w i)
     \<Longrightarrow> leading_zeros n w = n - 1 - m"
proof (induction n)
  case 0
  then show ?case by simp
next
  case (Suc n)
  show ?case
  proof (cases "bit w n")
    case True
    with Suc.prems have "m = n"
      by (metis less_Suc_eq lessI)
    with True show ?thesis by simp
  next
    case False
    with Suc.prems have "m < n"
      by (metis less_Suc_eq)
    with Suc False show ?thesis by auto
  qed
qed

text \<open>\<^verbatim>\<open>sigbits\<close> is one more than the position of the highest set bit of \<^verbatim>\<open>x | 1\<close>.\<close>

lemma sigbits_top_bit:
  assumes "bit (x OR 1) m" and "\<forall>i>m. \<not> bit (x OR 1) i"
  shows "sigbits x = of_nat (Suc m)"
proof -
  have m: "m < 64"
    using bit_imp_le_length [OF assms(1)] by simp
  have "builtin_clzll (x OR 1) = 63 - m"
    unfolding builtin_clzll_def
    using leading_zeros_top [of m 64 "x OR 1"] m assms by simp
  moreover have "(64::nat) - (63 - m) = Suc m"
    using m by simp
  moreover have "(of_nat 64 :: uqword) - of_nat (63 - m) = of_nat (64 - (63 - m))"
    by (rule of_nat_diff [symmetric]) simp
  ultimately show ?thesis
    by (simp only: sigbits_def bitwidth_uqword_eq)
qed

lemma sigbits_zero: "sigbits 0 = 1"
  using sigbits_top_bit [of 0 0] by (simp add: bit_1_iff)

lemma sigbits_pow2: "k \<le> 63 \<Longrightarrow> sigbits (2 ^ k) = of_nat (k + 1)"
  using sigbits_top_bit [of "2 ^ k" k]
  by (auto simp add: bit_or_iff bit_exp_iff bit_1_iff)

lemma sigbits_mersenne: "1 \<le> k \<Longrightarrow> k \<le> 64 \<Longrightarrow> sigbits (2 ^ k - 1) = of_nat k"
proof -
  assume k: "1 \<le> k" "k \<le> 64"
  have eq: "(2 ^ k - 1 :: uqword) = mask k"
    by (simp add: mask_eq_exp_minus_1)
  have "bit (mask k OR 1 :: uqword) (k - 1)"
    using k by (auto simp add: bit_or_iff bit_mask_iff)
  moreover have "\<forall>i>k - 1. \<not> bit (mask k OR 1 :: uqword) i"
    using k by (auto simp add: bit_or_iff bit_mask_iff bit_1_iff)
  ultimately have "sigbits (mask k) = of_nat (Suc (k - 1))"
    by (rule sigbits_top_bit)
  with k eq show ?thesis by simp
qed

text \<open>
  The portable body computes the position of the highest set bit, one less than the
  significant bit count of the body in use, and 0 at 0.
\<close>

lemma sigbits_portable_values:
  "sigbits_portable 0 = 0" "sigbits_portable 1 = 0" "sigbits_portable 8 = 3"
  "sigbits_portable 0xFFFFFFFFFFFFFFFF = 63"
  by code_simp+

text \<open>
  Claim C5. \<^verbatim>\<open>sigbits(0)\<close> is 1; \<^verbatim>\<open>sigbits(2^k)\<close> is \<open>k + 1\<close> for every \<open>k\<close> from 0 to 63;
  and \<^verbatim>\<open>sigbits(2^k - 1)\<close> is \<open>k\<close> for every \<open>k\<close> from 1 to 64 (at \<open>k = 64\<close> the operand
  is the all-ones word).
\<close>

theorem sigbits_values:
  "sigbits 0 = 1
   \<and> (\<forall>k\<le>63. sigbits (2 ^ k) = of_nat (k + 1))
   \<and> (\<forall>k. 1 \<le> k \<and> k \<le> 64 \<longrightarrow> sigbits (2 ^ k - 1) = of_nat k)"
  by (simp add: sigbits_zero sigbits_pow2 sigbits_mersenne)

theorem sigbits_values_witness:
  "sigbits 0 = 1 \<and> (5::nat) \<le> 63 \<and> sigbits (2 ^ 5) = 6
   \<and> (1::nat) \<le> 64 \<and> sigbits (2 ^ 64 - 1) = 64"
  using sigbits_values [THEN conjunct1]
    sigbits_values [THEN conjunct2, THEN conjunct1, rule_format, of 5]
    sigbits_values [THEN conjunct2, THEN conjunct2, rule_format, of 64]
  by simp

section \<open>Properties of the zero counts\<close>

lemma cnttz_zero: "cnttz ar 0 = 64"
proof (cases ar)
  case ARCH_X86_32
  have "cnttz ARCH_X86_32 0 = 64" by code_simp
  with ARCH_X86_32 show ?thesis by simp
next
  case ARCH_X86_64
  have "cnttz ARCH_X86_64 0 = 64" by code_simp
  with ARCH_X86_64 show ?thesis by simp
next
  case ARCH_OTHER
  have "cnttz ARCH_OTHER 0 = 64" by code_simp
  with ARCH_OTHER show ?thesis by simp
qed

lemma cntlz_native_zero: "cntlz ARCH_X86_32 0 = 64" "cntlz ARCH_X86_64 0 = 64"
  by code_simp+

text \<open>
  Claim C4. \<^verbatim>\<open>cntlz(0)\<close> and \<^verbatim>\<open>cnttz(0)\<close> should both be the width, 64. \<^verbatim>\<open>cnttz(0)\<close> is 64
  on every branch (\<open>cnttz_zero\<close>), and \<^verbatim>\<open>cntlz(0)\<close> is 64 where the native instruction is
  used (\<open>cntlz_native_zero\<close>). The portable loop of \<^verbatim>\<open>cntlz\<close> starts at bit 63 and counts
  upwards, so it leaves after one round: \<^verbatim>\<open>cntlz(0)\<close> is 1 there.
\<close>

theorem cntlz_portable_zero: "cntlz ARCH_OTHER 0 = 1 \<and> cntlz ARCH_OTHER 0 \<noteq> 64"
  by code_simp

section \<open>Properties of the modulus\<close>

text \<open>
  Claim C7. \<^verbatim>\<open>umodq(a, 0)\<close> returns 0 for every \<open>a\<close>, and is no error.
\<close>

theorem umodq_zero_divisor: "umodq a 0 = Inr 0"
  by (simp add: umodq_def)

section \<open>Bounds from the significant bit count\<close>

lemma top_bit_exists:
  fixes w :: uqword
  assumes "w \<noteq> 0"
  shows "\<exists>m. bit w m \<and> (\<forall>i>m. \<not> bit w i)"
proof -
  let ?S = "{i. bit w i}"
  have fin: "finite ?S"
    by simp
  have ne: "?S \<noteq> {}"
    using assms by (auto simp add: bit_eq_iff)
  have "bit w (Max ?S)"
    using Max_in [OF fin ne] by simp
  moreover have "\<forall>i>Max ?S. \<not> bit w i"
    using Max_ge [OF fin] by (metis mem_Collect_eq not_le)
  ultimately show ?thesis by blast
qed

lemma bit_imp_exp_le:
  fixes w :: uqword
  assumes "bit w m"
  shows "2 ^ m \<le> unat w"
proof (rule ccontr)
  assume "\<not> 2 ^ m \<le> unat w"
  then have "take_bit m (unat w) = unat w"
    by (simp add: take_bit_nat_eq_self_iff)
  moreover have "\<not> bit (take_bit m (unat w)) m"
    by (simp add: bit_take_bit_iff)
  ultimately have "\<not> bit (unat w) m" by simp
  with assms show False
    by (simp add: bit_unsigned_iff)
qed

lemma no_bits_above_imp_less:
  fixes w :: uqword
  assumes "\<forall>i>m. \<not> bit w i"
  shows "unat w < 2 ^ Suc m"
proof -
  have "take_bit (Suc m) w = w"
  proof (rule bit_eqI)
    fix n
    show "bit (take_bit (Suc m) w) n = bit w n"
      using assms by (cases "n \<le> m") (auto simp add: bit_take_bit_iff not_le)
  qed
  then have "unat w = take_bit (Suc m) (unat w)"
    by (metis unsigned_take_bit_eq)
  then show ?thesis
    by (metis take_bit_nat_less_exp)
qed

lemma sigbits_nonzero_operand:
  assumes "x \<noteq> 0"
  shows "\<exists>m<64. sigbits x = of_nat (Suc m) \<and> 2 ^ m \<le> unat x \<and> unat x < 2 ^ Suc m"
proof -
  from top_bit_exists [OF assms] obtain m where m: "bit x m" "\<forall>i>m. \<not> bit x i"
    by blast
  have "m < 64"
    using bit_imp_le_length [OF m(1)] by simp
  moreover have "bit (x OR 1) m"
    using m(1) by (simp add: bit_or_iff)
  moreover have "\<forall>i>m. \<not> bit (x OR 1) i"
    using m(2) by (auto simp add: bit_or_iff bit_1_iff)
  ultimately show ?thesis
    using sigbits_top_bit [of x m] bit_imp_exp_le [OF m(1)] no_bits_above_imp_less [OF m(2)]
    by blast
qed

lemma sigbits_range: "\<exists>m<64. sigbits x = of_nat (Suc m)"
proof (cases "x = 0")
  case True
  then show ?thesis using sigbits_zero by (intro exI [of _ 0]) simp
next
  case False
  then show ?thesis using sigbits_nonzero_operand by blast
qed

lemma log2i_nonzero_operand:
  assumes "x \<noteq> 0"
  shows "\<exists>m<64. unat (log2i x) = m \<and> 2 ^ m \<le> unat x \<and> unat x < 2 ^ Suc m"
proof -
  from sigbits_nonzero_operand [OF assms] obtain m where
    m: "m < 64" "sigbits x = of_nat (Suc m)" "2 ^ m \<le> unat x" "unat x < 2 ^ Suc m"
    by blast
  have "log2i x = of_nat m"
    by (simp add: log2i_def m(2))
  then have "unat (log2i x) = m"
    using m(1) by (intro of_nat_inverse) simp_all
  with m show ?thesis by blast
qed

lemma pow2_less_D: "(2::nat) ^ m < 2 ^ n \<Longrightarrow> m < n"
  by simp

lemma pow2_le_I: "m \<le> n \<Longrightarrow> (2::nat) ^ m \<le> 2 ^ n"
  by simp

section \<open>Properties of the binary tree index\<close>

lemma unat_path: "unat (drop_bit 1 (a::uqword)) = unat a div 2"
  by (simp add: unat_drop_bit_eq drop_bit_eq_div unat_div)

lemma unat_side: "unat ((a::uqword) AND 1) = unat a mod 2"
  by (simp add: and_one_eq unat_mod)

lemma bin_index_root: "unat a div 2 \<le> 1 \<Longrightarrow> unat (bin_index a) = unat a mod 2"
proof -
  assume "unat a div 2 \<le> 1"
  then have "unat (drop_bit 1 a) = 0 \<or> unat (drop_bit 1 a) = 1"
    unfolding unat_path by linarith
  then have "drop_bit 1 a = 0 \<or> drop_bit 1 a = 1"
    by (metis unat_1 unsigned_eq_0_iff word_unat_eq_iff)
  then show ?thesis
    by (auto simp add: bin_index_def Let_def unat_side)
qed

lemma bin_index_inner:
  assumes "2 \<le> unat a div 2"
  shows "\<exists>m. 1 \<le> m \<and> m \<le> 62 \<and> unat (log2i (drop_bit 1 a)) = m
           \<and> 2 ^ m \<le> unat a div 2 \<and> unat a div 2 < 2 ^ Suc m
           \<and> unat (bin_index a) = 2 ^ Suc m - 2 + unat a div 2 - unat a mod 2 * 2 ^ m"
proof -
  let ?p = "drop_bit 1 a"
  let ?P = "unat a div 2"
  let ?S = "unat a mod 2"
  have P: "unat ?p = ?P" by (rule unat_path)
  have S: "unat (a AND 1) = ?S" by (rule unat_side)
  have p0: "?p \<noteq> 0" and p1: "?p \<noteq> 1"
    using assms P by auto
  from log2i_nonzero_operand [OF p0] obtain m where
    m: "unat (log2i ?p) = m" "2 ^ m \<le> ?P" "?P < 2 ^ Suc m"
    unfolding P by blast
  have Plt: "?P < 2 ^ 63"
    using unsigned_less [of a, where 'a = nat] by simp
  have "(2::nat) ^ m < 2 ^ 63"
    using m(2) Plt by simp
  then have "m < 63"
    by (rule pow2_less_D)
  then have m62: "m \<le> 62"
    by simp
  have "(2::nat) ^ 1 < 2 ^ Suc m"
    using assms m(3) by simp
  then have "1 < Suc m"
    by (rule pow2_less_D)
  then have m1: "1 \<le> m"
    by simp
  define N where "N = 2 ^ Suc m - 2 + ?P - ?S * 2 ^ m"
  have pow_le: "(2::nat) ^ Suc m \<le> 2 ^ 63"
    using m62 by (intro pow2_le_I) simp
  have two_le: "(2::nat) \<le> 2 ^ Suc m" by simp
  have S_le: "?S * 2 ^ m \<le> 2 ^ Suc m - 2 + ?P"
    using m(2) by (cases "?S = 0") (auto simp add: mod_2_eq_odd)
  have "N < 2 ^ Suc m + ?P" 
    using two_le unfolding N_def by (simp add: less_diff_conv add.commute trans_less_add2)
  then have N_lt: "N < 2 ^ 64"
    using pow_le Plt by simp
  have "bin_index a = push_bit m 2 - 2 + ?p - (a AND 1) * push_bit m 1"
    using p0 p1 m(1) by (simp add: bin_index_def Let_def)
  also have "\<dots> = of_nat (2 ^ Suc m) - of_nat 2 + of_nat ?P - of_nat ?S * of_nat (2 ^ m)"
    by (simp add: push_bit_eq_mult flip: P S)
  also have "\<dots> = of_nat N"
    unfolding N_def
    by (simp only: of_nat_diff [OF S_le] of_nat_add of_nat_diff [OF two_le] of_nat_mult)
  finally have "bin_index a = of_nat N" .
  then have "unat (bin_index a) = N"
    using N_lt by (intro of_nat_inverse) simp_all
  with m m1 m62 show ?thesis
    unfolding N_def by blast
qed

lemma offset_range:
  fixes m p s :: nat
  assumes "2 ^ m \<le> p" and "p < 2 ^ Suc m" and "s < 2"
  shows "2 ^ Suc m - 2 \<le> 2 ^ Suc m - 2 + p - s * 2 ^ m"
    and "2 ^ Suc m - 2 + p - s * 2 ^ m + 2 < 2 ^ Suc (Suc m)"
proof -
  define A :: nat where "A = 2 ^ m"
  have A: "1 \<le> A" "2 ^ Suc m = 2 * A" "2 ^ Suc (Suc m) = 4 * A"
    by (simp_all add: A_def)
  have s: "s = 0 \<or> s = 1"
    using assms(3) by auto
  show "2 ^ Suc m - 2 \<le> 2 ^ Suc m - 2 + p - s * 2 ^ m"
    using assms(1,2) s A unfolding A(2) A_def [symmetric] by auto
  show "2 ^ Suc m - 2 + p - s * 2 ^ m + 2 < 2 ^ Suc (Suc m)"
    using assms(1,2) s A unfolding A(2,3) A_def [symmetric] by auto
qed

lemma offset_same_depth:
  fixes m p q s t :: nat
  assumes "2 ^ m \<le> p" and "p < 2 ^ Suc m" and "2 ^ m \<le> q" and "q < 2 ^ Suc m"
    and "s < 2" and "t < 2"
    and "2 ^ Suc m - 2 + p - s * 2 ^ m = 2 ^ Suc m - 2 + q - t * 2 ^ m"
  shows "p = q \<and> s = t"
proof -
  define A :: nat where "A = 2 ^ m"
  have A: "1 \<le> A" "2 ^ Suc m = 2 * A"
    by (simp_all add: A_def)
  have s: "s = 0 \<or> s = 1" and t: "t = 0 \<or> t = 1"
    using assms(5,6) by auto
  show ?thesis
    using assms(1-4,7) s t A unfolding A(2) A_def [symmetric] by auto
qed

lemma log2i_root: "unat a div 2 \<le> 1 \<Longrightarrow> path_depth a = 0"
proof -
  assume "unat a div 2 \<le> 1"
  then have "unat (drop_bit 1 a) = 0 \<or> unat (drop_bit 1 a) = 1"
    unfolding unat_path by linarith
  then have "drop_bit 1 a = 0 \<or> drop_bit 1 a = 1"
    by (metis unat_1 unsigned_eq_0_iff word_unat_eq_iff)
  moreover have "log2i 0 = 0"
    by (simp add: log2i_def sigbits_zero)
  moreover have "log2i 1 = 0"
    using sigbits_pow2 [of 0] by (simp add: log2i_def)
  ultimately show ?thesis
    unfolding path_depth_def by auto
qed

lemma bin_index_depth_range:
  "2 ^ Suc (path_depth a) - 2 \<le> unat (bin_index a)
   \<and> unat (bin_index a) + 2 < 2 ^ Suc (Suc (path_depth a))"
proof (cases "unat a div 2 \<le> 1")
  case True
  have "unat a mod 2 < 2" by simp
  then show ?thesis
    using bin_index_root [OF True] log2i_root [OF True] by simp
next
  case False
  then have "2 \<le> unat a div 2" by simp
  from bin_index_inner [OF this] obtain m where
    m: "unat (log2i (drop_bit 1 a)) = m" "2 ^ m \<le> unat a div 2" "unat a div 2 < 2 ^ Suc m"
      "unat (bin_index a) = 2 ^ Suc m - 2 + unat a div 2 - unat a mod 2 * 2 ^ m"
    by blast
  have s: "unat a mod 2 < 2" by simp
  show ?thesis
    using offset_range [OF m(2,3) s]
    unfolding path_depth_def m(1) m(4) by blast
qed

text \<open>
  Claim C3. \<^verbatim>\<open>bin_index\<close> is monotone by depth: every offset returned for an address of
  depth \<open>d\<close> is strictly below every offset returned for an address of depth \<open>d + 1\<close>,
  for all 64-bit addresses.
\<close>

theorem bin_index_monotone_by_depth:
  assumes "path_depth a2 = Suc (path_depth a1)"
  shows "bin_index a1 < bin_index a2"
proof -
  have "unat (bin_index a1) + 2 < 2 ^ Suc (Suc (path_depth a1))"
    using bin_index_depth_range [of a1] by blast
  moreover have "2 ^ Suc (path_depth a2) - 2 \<le> unat (bin_index a2)"
    using bin_index_depth_range [of a2] by blast
  ultimately have "unat (bin_index a1) < unat (bin_index a2)"
    unfolding assms by linarith
  then show ?thesis
    by (simp add: word_less_nat_alt)
qed

theorem bin_index_monotone_by_depth_witness:
  "path_depth 7 = Suc (path_depth 2) \<and> bin_index 2 < bin_index 7"
proof -
  have h: "path_depth 7 = Suc (path_depth 2)"
    by code_simp
  from h bin_index_monotone_by_depth [OF h] show ?thesis by blast
qed

lemma path_depth_inner: "2 \<le> unat a div 2 \<Longrightarrow> 1 \<le> path_depth a"
proof -
  assume "2 \<le> unat a div 2"
  from bin_index_inner [OF this] obtain m where "1 \<le> m" "unat (log2i (drop_bit 1 a)) = m"
    by blast
  then show ?thesis
    unfolding path_depth_def by simp
qed

lemma bin_index_eq_imp_depth_eq:
  assumes "bin_index a1 = bin_index a2"
  shows "path_depth a1 = path_depth a2"
proof -
  have v: "unat (bin_index a1) = unat (bin_index a2)"
    using assms by simp
  have "(2::nat) ^ Suc (path_depth a1) < 2 ^ Suc (Suc (path_depth a2))"
    using bin_index_depth_range [of a1] bin_index_depth_range [of a2] unfolding v by linarith
  then have "Suc (path_depth a1) < Suc (Suc (path_depth a2))"
    by (rule pow2_less_D)
  moreover have "(2::nat) ^ Suc (path_depth a2) < 2 ^ Suc (Suc (path_depth a1))"
    using bin_index_depth_range [of a1] bin_index_depth_range [of a2] unfolding v by linarith
  then have "Suc (path_depth a2) < Suc (Suc (path_depth a1))"
    by (rule pow2_less_D)
  ultimately show ?thesis by linarith
qed

lemma bin_index_inj_paths_ge_1:
  assumes "1 \<le> unat a1 div 2" and "1 \<le> unat a2 div 2" and "bin_index a1 = bin_index a2"
  shows "a1 = a2"
proof -
  have d: "path_depth a1 = path_depth a2"
    using assms(3) by (rule bin_index_eq_imp_depth_eq)
  have v: "unat (bin_index a1) = unat (bin_index a2)"
    using assms(3) by simp
  have "unat a1 div 2 = unat a2 div 2 \<and> unat a1 mod 2 = unat a2 mod 2"
  proof (cases "unat a1 div 2 \<le> 1")
    case True
    then have p1: "unat a1 div 2 = 1" using assms(1) by linarith
    have d2: "path_depth a2 = 0" using log2i_root [OF True] d by simp
    have "unat a2 div 2 \<le> 1"
      using path_depth_inner [of a2] d2 by linarith
    then have p2: "unat a2 div 2 = 1" using assms(2) by linarith
    have "unat a1 mod 2 = unat a2 mod 2"
      using bin_index_root [OF True] bin_index_root [OF \<open>unat a2 div 2 \<le> 1\<close>] v by linarith
    with p1 p2 show ?thesis by simp
  next
    case False
    then have g1: "2 \<le> unat a1 div 2" by linarith
    have "path_depth a2 \<noteq> 0"
      using path_depth_inner [OF g1] d by linarith
    then have "\<not> unat a2 div 2 \<le> 1"
      using log2i_root [of a2] by auto
    then have g2: "2 \<le> unat a2 div 2" by linarith
    from bin_index_inner [OF g1] obtain m where
      m: "unat (log2i (drop_bit 1 a1)) = m" "2 ^ m \<le> unat a1 div 2" "unat a1 div 2 < 2 ^ Suc m"
        "unat (bin_index a1) = 2 ^ Suc m - 2 + unat a1 div 2 - unat a1 mod 2 * 2 ^ m"
      by blast
    from bin_index_inner [OF g2] obtain n where
      n: "unat (log2i (drop_bit 1 a2)) = n" "2 ^ n \<le> unat a2 div 2" "unat a2 div 2 < 2 ^ Suc n"
        "unat (bin_index a2) = 2 ^ Suc n - 2 + unat a2 div 2 - unat a2 mod 2 * 2 ^ n"
      by blast
    have mn: "n = m"
      using d m(1) n(1) unfolding path_depth_def by simp
    have eq: "2 ^ Suc m - 2 + unat a1 div 2 - unat a1 mod 2 * 2 ^ m
                = 2 ^ Suc m - 2 + unat a2 div 2 - unat a2 mod 2 * 2 ^ m"
      using m(4) n(4) v unfolding mn by simp
    have s: "unat a1 mod 2 < 2" "unat a2 mod 2 < 2" by simp_all
    show ?thesis
      using offset_same_depth [OF m(2,3) n(2,3) [unfolded mn] s eq] .
  qed
  then have "unat a1 div 2 * 2 + unat a1 mod 2 = unat a2 div 2 * 2 + unat a2 mod 2"
    by simp
  then have "unat a1 = unat a2"
    by (simp only: div_mult_mod_eq)
  then show ?thesis
    by (simp add: word_unat_eq_iff)
qed

text \<open>
  Claim C2, as stated: \<^verbatim>\<open>bin_index\<close> is injective over the addresses whose paths lie in
  \<open>[0, 2^20)\<close>. It is not: the addresses 0 (path 0, left) and 2 (path 1, left) are both
  sent to offset 0, since both \<^verbatim>\<open>if (!address) return side;\<close> and the branch
  \<^verbatim>\<open>address == 1 ? side\<close> return the side bit.
\<close>

theorem bin_index_not_injective:
  "(0::uqword) \<noteq> 2 \<and> unat (drop_bit 1 (0::uqword)) < 2 ^ 20 \<and> unat (drop_bit 1 (2::uqword)) < 2 ^ 20
   \<and> bin_index 0 = bin_index 2"
proof -
  have "bin_index 0 = bin_index 2"
    by code_simp
  then show ?thesis
    by (simp add: unat_path)
qed

text \<open>
  Claim C2, amended: \<^verbatim>\<open>bin_index\<close> is injective over the addresses whose paths lie in
  \<open>[1, 2^20)\<close>: two distinct such addresses have distinct offsets.
\<close>

theorem bin_index_injective_amended:
  assumes "a1 \<noteq> a2"
    and "1 \<le> unat (drop_bit 1 a1)" and "unat (drop_bit 1 a1) < 2 ^ 20"
    and "1 \<le> unat (drop_bit 1 a2)" and "unat (drop_bit 1 a2) < 2 ^ 20"
  shows "bin_index a1 \<noteq> bin_index a2"
  using assms(1,2,4) bin_index_inj_paths_ge_1 [of a1 a2] unfolding unat_path by blast

theorem bin_index_injective_amended_witness:
  "(4::uqword) \<noteq> 7 \<and> 1 \<le> unat (drop_bit 1 (4::uqword)) \<and> unat (drop_bit 1 (4::uqword)) < 2 ^ 20
   \<and> 1 \<le> unat (drop_bit 1 (7::uqword)) \<and> unat (drop_bit 1 (7::uqword)) < 2 ^ 20
   \<and> bin_index 4 \<noteq> bin_index 7"
proof -
  have h: "(4::uqword) \<noteq> 7" "1 \<le> unat (drop_bit 1 (4::uqword))" "unat (drop_bit 1 (4::uqword)) < 2 ^ 20"
   "1 \<le> unat (drop_bit 1 (7::uqword))" "unat (drop_bit 1 (7::uqword)) < 2 ^ 20"
    by (simp_all add: unat_path)
  from h bin_index_injective_amended [OF h] show ?thesis by blast
qed

section \<open>Correctness of the modulus\<close>

lemma uint_ucast_up: "uint (ucast (x::uqword) :: udqword) = uint x"
  by (simp add: unsigned_ucast_eq take_bit_int_eq_self unsigned_less [THEN less_trans])

lemma ucast_sub_down:
  fixes x y :: uqword
  shows "(ucast ((ucast x :: udqword) - (ucast y :: udqword)) :: uqword) = x - y"
proof -
  have "uint (ucast ((ucast x :: udqword) - (ucast y :: udqword)) :: uqword)
          = take_bit 64 (take_bit 128 (uint x - uint y))"
    by (simp add: unsigned_ucast_eq uint_word_ariths uint_ucast_up take_bit_eq_mod mod_diff_eq)
  also have "\<dots> = take_bit 64 (uint x - uint y)"
    by simp
  also have "\<dots> = uint (x - y)"
    by (simp add: uint_word_ariths take_bit_eq_mod)
  finally show ?thesis
    by (simp add: word_uint_eq_iff)
qed

lemma ucast_and_down:
  fixes x y :: uqword
  shows "(ucast ((ucast x :: udqword) AND (ucast y :: udqword)) :: uqword) = x AND y"
  by (rule bit_word_eqI) (auto simp add: bit_simps)

lemma umodq_loop_mod:
  assumes "b \<noteq> 0"
  shows "umodq_loop a b = Some (a mod b)"
proof (induction "unat a" arbitrary: a rule: less_induct)
  case less
  show ?case
  proof (cases "b \<le> a")
    case True
    have "unat (a - b) < unat a"
      using True assms by (simp add: unat_sub word_le_nat_alt unat_gt_0 [symmetric] del: unat_gt_0)
    then have "umodq_loop (a - b) b = Some ((a - b) mod b)"
      by (rule less)
    moreover have "(a - b) mod b = a mod b"
      using True by (simp add: word_unat_eq_iff unat_mod unat_sub word_le_nat_alt le_mod_geq)
    ultimately show ?thesis
      using True by (subst umodq_loop.simps) simp
  next
    case False
    then have "a mod b = a"
      by (simp add: mod_word_less)
    with False show ?thesis
      by (subst umodq_loop.simps) simp
  qed
qed

lemma shift_by_sigbits_id: "shift_by_sigbits a b = Inr a"
proof -
  from sigbits_range [of a] obtain m where m: "m < 64" "sigbits a = of_nat (Suc m)"
    by blast
  from sigbits_range [of b] obtain n where n: "n < 64" "sigbits b = of_nat (Suc n)"
    by blast
  have "unat (sigbits a) = Suc m"
    using m by (intro of_nat_inverse) simp_all
  then have a: "sigbits a \<noteq> 0"
    by (metis Zero_not_Suc unsigned_0)
  have "unat (sigbits b) = Suc n"
    using n by (intro of_nat_inverse) simp_all
  then have b: "sigbits b \<noteq> 0"
    by (metis Zero_not_Suc unsigned_0)
  show ?thesis
    using a b by (simp add: shift_by_sigbits_def Let_def)
qed

lemma pow2_less_I: "m < n \<Longrightarrow> (2::nat) ^ m < 2 ^ n"
  by simp

lemma fold_mod_nat:
  fixes A B K :: nat
  assumes "B \<le> K"
  shows "((K - B) * (A div K) + A mod K) mod B = A mod B"
proof -
  have "(K - B) * (A div K) + B * (A div K) = K * (A div K)"
    using assms by (simp flip: add_mult_distrib)
  then have "A = (K - B) * (A div K) + A mod K + B * (A div K)"
    using mult_div_mod_eq [of K A] by linarith
  then have "A mod B = ((K - B) * (A div K) + A mod K + B * (A div K)) mod B"
    by simp
  also have "\<dots> = ((K - B) * (A div K) + A mod K) mod B"
    by (rule mod_mult_self2)
  finally show ?thesis by simp
qed

lemma fold_bound_nat:
  fixes A B K M :: nat
  assumes "A < 2 ^ 64" and "K = 2 * M" and "M \<le> B" and "K \<le> 2 ^ 63" and "0 < K"
  shows "(K - B) * (A div K) < 2 ^ 64"
    and "A mod K + (K - B) * (A div K) < 2 ^ 64"
proof -
  have "K - B \<le> M"
    using assms(2,3) by simp
  then have "(K - B) * (A div K) \<le> M * (A div K)"
    by (rule mult_le_mono1)
  moreover have "2 * (M * (A div K)) + A mod K = A"
    using assms(2) by (simp add: mult.assoc [symmetric])
  moreover have "A mod K < K"
    using assms(5) by simp
  moreover have "(2::nat) ^ 64 = 2 * 2 ^ 63"
    by simp
  ultimately show "(K - B) * (A div K) < 2 ^ 64"
    and "A mod K + (K - B) * (A div K) < 2 ^ 64"
    using assms(1,4) by linarith+
qed

lemma unat_exp_64: "k < 64 \<Longrightarrow> unat (2 ^ k :: uqword) = 2 ^ k"
proof -
  assume "k < 64"
  then have "(2::nat) ^ k < 2 ^ 64"
    by (rule pow2_less_I)
  moreover have "(of_nat (2 ^ k) :: uqword) = 2 ^ k"
    by simp
  ultimately show ?thesis
    by (intro of_nat_inverse) simp_all
qed

lemma umodq_small_divisor:
  assumes "b \<noteq> 0" and "unat b < 2 ^ 63"
  shows "umodq a b = Inr (a mod b)"
proof -
  from sigbits_nonzero_operand [OF assms(1)] obtain m where
    m: "m < 64" "sigbits b = of_nat (Suc m)" "2 ^ m \<le> unat b" "unat b < 2 ^ Suc m"
    by blast
  have "(2::nat) ^ m < 2 ^ 63"
    using m(3) assms(2) by simp
  then have m63: "m < 63"
    by (rule pow2_less_D)
  define k where "k = Suc m"
  have k: "k < 64" "k \<le> 63" "0 < k"
    using m63 by (simp_all add: k_def)
  have count: "log2i b + 1 = of_nat k"
    by (simp add: log2i_def m(2) k_def)
  have "unat (of_nat k :: uqword) = k"
    using k(1) by (intro of_nat_inverse) simp_all
  then have ucount: "uint (log2i b + 1) = int k"
    unfolding count by (simp add: uint_nat)
  have sr: "shr a (uint (log2i b + 1)) = Inr (drop_bit k a)"
    using k(1) unfolding ucount by (simp add: shr_def)
  have sl: "shl 1 (uint (log2i b + 1)) = Inr (2 ^ k)"
    using k(1) unfolding ucount by (simp add: shl_def)
  define a4 where "a4 = take_bit k a + (2 ^ k - b) * drop_bit k a"
  have mask: "a AND (2 ^ k - 1) = take_bit k a"
    by (simp add: take_bit_eq_mask mask_eq_exp_minus_1)
  have step: "umodq a b = (case umodq_loop a4 b of None \<Rightarrow> Inl Diverges | Some r \<Rightarrow> Inr r)"
    using assms(1)
    by (simp add: umodq_def shift_by_sigbits_id sr sl ucast_sub_down ucast_and_down mask a4_def
        del: take_bit_of_1)
  have res: "umodq a b = Inr (a4 mod b)"
    unfolding step umodq_loop_mod [OF assms(1)] by simp
  let ?A = "unat a" and ?B = "unat b" and ?K = "(2::nat) ^ k"
  have K: "?K = 2 * 2 ^ m" "0 < ?K"
    by (simp_all add: k_def)
  have K63: "?K \<le> 2 ^ 63"
    using k(2) by (rule pow2_le_I)
  have BK: "?B \<le> ?K"
    using m(4) by (simp add: k_def)
  have A: "?A < 2 ^ 64"
    using unsigned_less [of a, where 'a = nat] by simp
  have uK: "unat (2 ^ k :: uqword) = ?K"
    using k(1) by (rule unat_exp_64)
  have ub2: "unat (2 ^ k - b) = ?K - ?B"
    using BK uK by (simp add: unat_sub word_le_nat_alt)
  have ua2: "unat (drop_bit k a) = ?A div ?K"
    by (simp add: unat_drop_bit_eq drop_bit_eq_div unat_div uK)
  have ua3: "unat (take_bit k a) = ?A mod ?K"
    by (simp add: unsigned_take_bit_eq take_bit_eq_mod unat_mod uK)
  have umul: "unat ((2 ^ k - b) * drop_bit k a) = (?K - ?B) * (?A div ?K)"
    using fold_bound_nat(1) [OF A K(1) m(3) K63 K(2)]
    by (simp add: unat_mult_lem [THEN iffD1] ub2 ua2)
  have ua4: "unat a4 = ?A mod ?K + (?K - ?B) * (?A div ?K)"
    unfolding a4_def
    using fold_bound_nat(2) [OF A K(1) m(3) K63 K(2)]
    by (simp add: unat_add_lem [THEN iffD1] umul ua3)
  have "unat (a4 mod b) = unat (a mod b)"
    using fold_mod_nat [OF BK, of ?A]
    by (simp add: unat_mod ua4 add.commute)
  then have "a4 mod b = a mod b"
    by (simp add: word_unat_eq_iff)
  with res show ?thesis by simp
qed

lemma umodq_large_divisor:
  assumes "2 ^ 63 \<le> unat b"
  shows "umodq a b = Inl Undefined_shift"
proof -
  have b0: "b \<noteq> 0"
    using assms by auto
  from sigbits_nonzero_operand [OF b0] obtain m where
    m: "m < 64" "sigbits b = of_nat (Suc m)" "2 ^ m \<le> unat b" "unat b < 2 ^ Suc m"
    by blast
  have "(2::nat) ^ 63 < 2 ^ Suc m"
    using m(4) assms by simp
  then have "63 < Suc m"
    by (rule pow2_less_D)
  with m(1) have "m = 63" by simp
  then have "log2i b + 1 = 64"
    by (simp add: log2i_def m(2))
  then have "shr a (uint (log2i b + 1)) = Inl Undefined_shift"
    by (simp add: shr_def)
  then show ?thesis
    using b0 by (simp add: umodq_def shift_by_sigbits_id)
qed


text \<open>
  Claim C1. \<^verbatim>\<open>umodq(a, b)\<close> should be \<open>a mod b\<close> for every \<open>b > 0\<close>. It is for every
  divisor below \<open>2^63\<close> (\<open>umodq_small_divisor\<close>). For a divisor with bit 63 set,
  \<^verbatim>\<open>log2i(b) + 1\<close> is 64 and both \<^verbatim>\<open>a >> 64\<close> and \<^verbatim>\<open>1ull << 64\<close> shift a 64-bit operand
  by its full width, which C leaves undefined (\<open>umodq_large_divisor\<close>): the widening
  cast that the source's comment relies on is applied after the shift. At
  \<open>a = 2\<close>, \<open>b = 2^63 + 1\<close> the remainder is 2 and \<^verbatim>\<open>umodq\<close> has no defined result.
\<close>

theorem umodq_undefined_at_large_divisor:
  "umodq 2 0x8000000000000001 = Inl Undefined_shift \<and> (2 :: uqword) mod 0x8000000000000001 = 2"
  by code_simp

section \<open>Properties of the partition store\<close>

lemma smallest_fit_mem: "smallest_fit bits fl = Some r \<Longrightarrow> r \<in> set fl \<and> bits \<le> snd r"
  by (induction fl arbitrary: r) (auto split: option.splits if_splits)

lemma reserve_region_ok:
  assumes "regions_within (free_list s) (length (backing s))"
    and "reserve_region s bits = Inr (r, s1)"
  shows "bits \<le> snd r \<and> fst r + snd r \<le> length (backing s1)
         \<and> take (length (backing s)) (backing s1) = backing s
         \<and> table s1 = table s"
proof (cases "smallest_fit bits (free_list s)")
  case None
  with assms(2) show ?thesis
    by (auto simp add: reserve_region_def split: if_splits)
next
  case (Some r')
  from smallest_fit_mem [OF Some] assms(1) have "fst r' + snd r' \<le> length (backing s)" "bits \<le> snd r'"
    by (auto simp add: regions_within_def list_all_iff)
  with Some assms(2) show ?thesis
    by (auto simp add: reserve_region_def)
qed

lemma contents_length:
  "offset p + len p \<le> length (backing s) \<Longrightarrow> length (contents s p) = len p"
  by (simp add: contents_def read_bits_def)

lemma read_write_bits:
  assumes "off + length bs \<le> length v" and "length bs \<le> m"
  shows "take (length bs) (read_bits (write_bits v off bs) off m) = bs"
proof -
  have "drop off (write_bits v off bs) = bs @ drop (off + length bs) v"
    using assms(1) by (simp add: write_bits_def)
  then show ?thesis
    using assms(2) by (simp add: read_bits_def min_absorb1)
qed

lemma regions_within_remove1:
  "regions_within fl n \<Longrightarrow> regions_within (remove1 r fl) n"
  using set_remove1_subset [of r fl] by (auto simp add: regions_within_def list_all_iff)

lemma regions_within_mono:
  "regions_within fl n \<Longrightarrow> n \<le> n' \<Longrightarrow> regions_within fl n'"
  by (auto simp add: regions_within_def list_all_iff)

lemma reserve_region_keeps_bounds:
  assumes "regions_within (free_list s) (length (backing s))"
    and "reserve_region s bits = Inr (r, s1)"
  shows "regions_within (free_list s1) (length (backing s1))"
proof (cases "smallest_fit bits (free_list s)")
  case None
  with assms(2) have "free_list s1 = free_list s" "length (backing s) \<le> length (backing s1)"
    by (auto simp add: reserve_region_def split: if_splits)
  with assms(1) show ?thesis
    by (simp add: regions_within_mono)
next
  case (Some r')
  with assms(2) have "free_list s1 = remove1 r' (free_list s)" "backing s1 = backing s"
    by (auto simp add: reserve_region_def)
  with assms(1) show ?thesis
    by (simp add: regions_within_remove1)
qed

lemma write_bits_length:
  "off + length bs \<le> length v \<Longrightarrow> length (write_bits v off bs) = length v"
  by (simp add: write_bits_def)

text \<open>
  A resize that succeeds keeps the free regions and the resized partition inside the
  backing vector, so the premises of the claim below hold again afterwards.
\<close>

lemma m_resize_keeps_bounds:
  assumes "regions_within (free_list s) (length (backing s))"
    and "table s (ctx, identifier) = Some p" and "live p"
    and "offset p + len p \<le> length (backing s)"
    and "m_resize s ctx identifier bits = Inr (p', s')"
  shows "regions_within (free_list s') (length (backing s'))
    \<and> offset p' + len p' \<le> length (backing s')"
proof (cases "bits \<le> len p")
  case True
  with assms(2,3,5) have "p' = p\<lparr>len := bits\<rparr>"
    and "s' = s\<lparr>table := (table s)((ctx, identifier) \<mapsto> p')\<rparr>"
    by (auto simp add: m_resize_def Let_def)
  with True assms(1,4) show ?thesis
    by simp
next
  case False
  show ?thesis
  proof (cases "trailing_free (offset p + len p) (bits - len p) (free_list s)")
    case (Some r)
    then have r: "r \<in> set (free_list s)" "fst r = offset p + len p"
      by (auto simp add: trailing_free_def find_Some_iff)
    then have "fst r + snd r \<le> length (backing s)"
      using assms(1) by (auto simp add: regions_within_def list_all_iff)
    moreover from Some False assms(2,3,5) have "p' = p\<lparr>len := len p + snd r\<rparr>"
      and "s' = s\<lparr>table := (table s)((ctx, identifier) \<mapsto> p'),
                    free_list := remove1 r (free_list s)\<rparr>"
      by (auto simp add: m_resize_def Let_def)
    ultimately show ?thesis
      using r(2) assms(1) by (simp add: regions_within_remove1)
  next
    case None
    with False assms(2,3,5) obtain r s1 where
      rr: "reserve_region s bits = Inr (r, s1)"
      and p': "p' = p\<lparr>offset := fst r, len := snd r\<rparr>"
      and s': "s' = s1\<lparr>backing := write_bits (backing s1) (fst r) (contents s p),
                         table := (table s1)((ctx, identifier) \<mapsto> p')\<rparr>"
      by (auto simp add: m_resize_def Let_def split: sum.splits)
    from reserve_region_ok [OF assms(1) rr]
    have r: "bits \<le> snd r" "fst r + snd r \<le> length (backing s1)"
      by simp_all
    have cl: "length (contents s p) = len p"
      using assms(4) by (rule contents_length)
    have "fst r + length (contents s p) \<le> length (backing s1)"
      using r False cl by simp
    then have len: "length (backing s') = length (backing s1)"
      by (simp add: s' write_bits_length)
    show ?thesis
      using reserve_region_keeps_bounds [OF assms(1) rr] r(2) len
      by (simp add: p' s')
  qed
qed

text \<open>
  Claim C6. Resizing a live partition preserves its content over the first
  \<open>min(old_len, new_len)\<close> bits: in a store whose free regions and whose partition lie
  inside the backing vector, a resize that succeeds returns the partition registered
  under the key, at least \<open>bits\<close> long, whose first \<open>min(old_len, new_len)\<close> bits are
  those stored before.
\<close>

theorem m_resize_preserves_content:
  assumes "regions_within (free_list s) (length (backing s))"
    and "table s (ctx, identifier) = Some p" and "live p"
    and "offset p + len p \<le> length (backing s)"
    and "m_resize s ctx identifier bits = Inr (p', s')"
  shows "table s' (ctx, identifier) = Some p' \<and> bits \<le> len p'
    \<and> take (min (len p) (len p')) (contents s' p') = take (min (len p) (len p')) (contents s p)"
proof (cases "bits \<le> len p")
  case True
  with assms(2,3,5) have "p' = p\<lparr>len := bits\<rparr>"
    and "s' = s\<lparr>table := (table s)((ctx, identifier) \<mapsto> p')\<rparr>"
    by (auto simp add: m_resize_def Let_def)
  with True show ?thesis
    by (simp add: contents_def read_bits_def min_absorb2)
next
  case False
  show ?thesis
  proof (cases "trailing_free (offset p + len p) (bits - len p) (free_list s)")
    case (Some r)
    then have need: "bits - len p \<le> snd r"
      by (auto simp add: trailing_free_def find_Some_iff)
    from Some False assms(2,3,5) have "p' = p\<lparr>len := len p + snd r\<rparr>"
      and "s' = s\<lparr>table := (table s)((ctx, identifier) \<mapsto> p'),
                    free_list := remove1 r (free_list s)\<rparr>"
      by (auto simp add: m_resize_def Let_def)
    with need show ?thesis
      by (simp add: contents_def read_bits_def min_absorb1)
  next
    case None
    with False assms(2,3,5) obtain r s1 where
      rr: "reserve_region s bits = Inr (r, s1)"
      and p': "p' = p\<lparr>offset := fst r, len := snd r\<rparr>"
      and s': "s' = s1\<lparr>backing := write_bits (backing s1) (fst r) (contents s p),
                         table := (table s1)((ctx, identifier) \<mapsto> p')\<rparr>"
      by (auto simp add: m_resize_def Let_def split: sum.splits)
    from reserve_region_ok [OF assms(1) rr]
    have r: "bits \<le> snd r" "fst r + snd r \<le> length (backing s1)"
      by simp_all
    have cl: "length (contents s p) = len p"
      using assms(4) by (rule contents_length)
    have lp: "len p \<le> snd r"
      using False r(1) by simp
    have "take (length (contents s p))
            (read_bits (write_bits (backing s1) (fst r) (contents s p)) (fst r) (snd r)) = contents s p"
      using r(2) lp cl by (intro read_write_bits) simp_all
    moreover have "contents s' p'
        = read_bits (write_bits (backing s1) (fst r) (contents s p)) (fst r) (snd r)"
      unfolding p' s' by (simp add: contents_def)
    ultimately have "take (len p) (contents s' p') = contents s p"
      by (simp only: cl)
    then show ?thesis
      using lp r(1) cl by (simp add: min_absorb1 p' s')
  qed
qed

theorem m_resize_preserves_content_witness:
  "regions_within [] (length [True, False, True, True])
   \<and> [(1, 1) \<mapsto> \<lparr>key = (1, 1), offset = 0, len = 4, live = True\<rparr>] (1 :: uqword, 1 :: uqword)
       = Some \<lparr>key = (1, 1), offset = 0, len = 4, live = True\<rparr>
   \<and> m_resize \<lparr>backing = [True, False, True, True],
         table = [(1, 1) \<mapsto> \<lparr>key = (1, 1), offset = 0, len = 4, live = True\<rparr>],
         free_list = [], limit = 64\<rparr> 1 1 6
       = Inr (\<lparr>key = (1, 1), offset = 4, len = 6, live = True\<rparr>,
           \<lparr>backing = [True, False, True, True, True, False, True, True, False, False],
            table = [(1, 1) \<mapsto> \<lparr>key = (1, 1), offset = 4, len = 6, live = True\<rparr>],
            free_list = [], limit = 64\<rparr>)
   \<and> take 4 (contents
         \<lparr>backing = [True, False, True, True, True, False, True, True, False, False],
          table = [(1, 1) \<mapsto> \<lparr>key = (1, 1), offset = 4, len = 6, live = True\<rparr>],
          free_list = [], limit = 64\<rparr>
         \<lparr>key = (1, 1), offset = 4, len = 6, live = True\<rparr>)
       = [True, False, True, True]"
proof -
  let ?p = "\<lparr>key = (1 :: uqword, 1 :: uqword), offset = 0, len = 4, live = True\<rparr>"
  let ?s = "\<lparr>backing = [True, False, True, True], table = [(1, 1) \<mapsto> ?p],
            free_list = [], limit = 64\<rparr>"
  let ?p' = "\<lparr>key = (1 :: uqword, 1 :: uqword), offset = 4, len = 6, live = True\<rparr>"
  let ?s' = "\<lparr>backing = [True, False, True, True, True, False, True, True, False, False],
             table = [(1, 1) \<mapsto> ?p'], free_list = [], limit = 64\<rparr>"
  have h1: "regions_within (free_list ?s) (length (backing ?s))"
    by (simp add: regions_within_def)
  have h2: "table ?s (1, 1) = Some ?p"
    by simp
  have h3: "live ?p"
    by simp
  have h4: "offset ?p + len ?p \<le> length (backing ?s)"
    by simp
  have h5: "m_resize ?s 1 1 6 = Inr (?p', ?s')"
    by (simp add: m_resize_def trailing_free_def reserve_region_def write_bits_def
        contents_def read_bits_def Let_def eval_nat_numeral)
  from m_resize_preserves_content [OF h1 h2 h3 h4 h5] h1 h2 h5 show ?thesis
    by (simp add: contents_def read_bits_def)
qed

end
